theory Spec2Isabelle
  imports Complex_Main "HOL-Library.Multiset"
begin

section \<open>Python values\<close>

text \<open>
  An \<open>Event\<close> object defines no \<open>__eq__\<close>, so \<open>list.remove\<close>, \<open>list.index\<close> and
  \<open>in\<close> compare object identities. An event is therefore modelled by its identity.
\<close>

type_synonym event = nat

text \<open>
  Python floats are kept abstract: \<open>'f\<close> is the type of floats and a record of
  operations stands for the interpreter's arithmetic. Nothing is assumed about them.
\<close>

record 'f float_ops =
  fadd :: "'f \<Rightarrow> 'f \<Rightarrow> 'f"
  fsub :: "'f \<Rightarrow> 'f \<Rightarrow> 'f"
  fdiv :: "'f \<Rightarrow> 'f \<Rightarrow> 'f"
  fof_int :: "int \<Rightarrow> 'f"
  fround :: "'f \<Rightarrow> nat \<Rightarrow> 'f"
  fint :: "'f \<Rightarrow> int option"
  fis_zero :: "'f \<Rightarrow> bool"

text \<open>
  \<open>fdiv\<close> is only applied to a non-zero divisor (a zero divisor raises before).
  \<open>fround x n\<close> is \<open>round(x, n)\<close>. \<open>fint x\<close> is the coercion of a float to an
  \<open>int\<close> field by the \<open>Estimation\<close> model (its validator comes from \<open>pydantic\<close>,
  outside the sources): \<open>Some k\<close> when it yields the integer \<open>k\<close>, \<open>None\<close> when it
  raises.
\<close>

datatype 'f pynum = PInt int | PFloat 'f

datatype 'f json =
    JNull
  | JBool bool
  | JInt int
  | JFloat 'f
  | JStr string
  | JArr "'f json list"
  | JObj "(string \<times> 'f json) list"

datatype error =
    ValueError
  | IndexError
  | ZeroDivisionError
  | ValidationError
  | BackendError
  | ResponseError

text \<open>Truth value of a Python object, as \<open>not event.data\<close> tests it.\<close>

fun truthy :: "'f float_ops \<Rightarrow> 'f json \<Rightarrow> bool" where
  "truthy F JNull = False"
| "truthy F (JBool b) = b"
| "truthy F (JInt n) = (n \<noteq> 0)"
| "truthy F (JFloat x) = (\<not> fis_zero F x)"
| "truthy F (JStr s) = (s \<noteq> [])"
| "truthy F (JArr xs) = (xs \<noteq> [])"
| "truthy F (JObj kvs) = (kvs \<noteq> [])"

text \<open>\<open>xs.index(x)\<close>: the first position of \<open>x\<close>, or \<open>ValueError\<close>.\<close>

fun py_index :: "'a list \<Rightarrow> 'a \<Rightarrow> error + nat" where
  "py_index [] x = Inl ValueError"
| "py_index (y # ys) x =
     (if y = x then Inr 0
      else (case py_index ys x of Inl err \<Rightarrow> Inl err | Inr i \<Rightarrow> Inr (Suc i)))"

text \<open>\<open>xs.remove(x)\<close>: drops the first occurrence of \<open>x\<close>, or \<open>ValueError\<close>.\<close>

fun py_remove :: "'a list \<Rightarrow> 'a \<Rightarrow> error + 'a list" where
  "py_remove [] x = Inl ValueError"
| "py_remove (y # ys) x =
     (if y = x then Inr ys
      else (case py_remove ys x of Inl err \<Rightarrow> Inl err | Inr zs \<Rightarrow> Inr (y # zs)))"

text \<open>\<open>xs.pop(0)\<close>: the head and the rest, or \<open>IndexError\<close>.\<close>

fun py_pop0 :: "'a list \<Rightarrow> error + ('a \<times> 'a list)" where
  "py_pop0 [] = Inl IndexError"
| "py_pop0 (x # xs) = Inr (x, xs)"

text \<open>\<open>xs[:n]\<close>: a negative bound counts from the end.\<close>

definition py_slice_to :: "'a list \<Rightarrow> int \<Rightarrow> 'a list" where
  "py_slice_to xs n =
     (if 0 \<le> n then take (nat n) xs else take (length xs - nat (- n)) xs)"

text \<open>\<open>sum(xs)\<close> starts from the integer \<open>0\<close> and adds from the left.\<close>

definition fsum :: "'f float_ops \<Rightarrow> 'f list \<Rightarrow> 'f" where
  "fsum F xs = foldl (fadd F) (fof_int F 0) xs"

section \<open>The class attributes of \<open>Queue\<close>\<close>

record 'f queue =
  EVENT_QUEUE :: "event list"
  STOP :: bool
  MAX_THREAD_COUNT :: int
  DATA_GATHERING_STARTS_AT :: int
  UPDATE_INTERVALS :: int
  ACTIVE_JOBS :: "event option list"
  SERVER_PATH :: "string option"
  DURATION_HISTORY_SIZE :: int
  DURATION_HISTORY :: "'f list"
  ESTIMATION :: "'f pynum"
  LIVE_QUEUE_UPDATES :: bool

definition Queue_class :: "'f queue" where
  "Queue_class =
     \<lparr> EVENT_QUEUE = [], STOP = False, MAX_THREAD_COUNT = 1,
       DATA_GATHERING_STARTS_AT = 30, UPDATE_INTERVALS = 10,
       ACTIVE_JOBS = [None], SERVER_PATH = None,
       DURATION_HISTORY_SIZE = 100, DURATION_HISTORY = [],
       ESTIMATION = PInt 1, LIVE_QUEUE_UPDATES = True \<rparr>"

text \<open>\<open>[None] * n\<close> is the empty list for \<open>n \<le> 0\<close>, as \<open>replicate (nat n)\<close> is.\<close>

definition configure_queue ::
  "'f queue \<Rightarrow> string \<Rightarrow> bool \<Rightarrow> int \<Rightarrow> int \<Rightarrow> int \<Rightarrow> int \<Rightarrow> 'f queue" where
  "configure_queue cls server_path live_queue_updates queue_concurrency_count
       data_gathering_start update_intervals duration_history_size =
     (let update_intervals' =
            (if live_queue_updates = False \<and> update_intervals = 5 then 10
             else update_intervals)
      in cls \<lparr> SERVER_PATH := Some server_path,
               LIVE_QUEUE_UPDATES := live_queue_updates,
               MAX_THREAD_COUNT := queue_concurrency_count,
               DATA_GATHERING_STARTS_AT := data_gathering_start,
               UPDATE_INTERVALS := update_intervals',
               DURATION_HISTORY_SIZE := duration_history_size,
               ACTIVE_JOBS := replicate (nat queue_concurrency_count) None \<rparr>)"

definition close :: "'f queue \<Rightarrow> 'f queue" where
  "close cls = cls \<lparr> STOP := True \<rparr>"

definition resume :: "'f queue \<Rightarrow> 'f queue" where
  "resume cls = cls \<lparr> STOP := False \<rparr>"

definition push :: "'f queue \<Rightarrow> event \<Rightarrow> 'f queue" where
  "push cls event = cls \<lparr> EVENT_QUEUE := EVENT_QUEUE cls @ [event] \<rparr>"

text \<open>\<open>clean_job\<close> has no handler: a \<open>ValueError\<close> of \<open>index\<close> propagates.\<close>

definition clean_job :: "'f queue \<Rightarrow> event \<Rightarrow> error + 'f queue" where
  "clean_job cls event =
     (case py_index (ACTIVE_JOBS cls) (Some event) of
        Inl err \<Rightarrow> Inl err
      | Inr i \<Rightarrow> Inr (cls \<lparr> ACTIVE_JOBS := (ACTIVE_JOBS cls)[i := None] \<rparr>))"

text \<open>
  \<open>clean_event\<close> takes the lock, removes the event and swallows the \<open>ValueError\<close>.
  The lock is never held across an \<open>await\<close>, so it is free whenever a coroutine
  reaches it and the body runs without suspension.
\<close>

definition clean_event :: "'f queue \<Rightarrow> event \<Rightarrow> 'f queue" where
  "clean_event cls event =
     (case py_remove (EVENT_QUEUE cls) event of
        Inl err \<Rightarrow> cls
      | Inr xs \<Rightarrow> cls \<lparr> EVENT_QUEUE := xs \<rparr>)"

text \<open>
  \<open>update_estimation\<close> mutates the history before it divides, so the history is
  updated even when the division raises; the result pairs the attributes with the
  exception raised, if any. Both divisors are integers (\<open>len\<close> and
  \<open>MAX_THREAD_COUNT\<close>).
\<close>

definition update_estimation ::
  "'f float_ops \<Rightarrow> 'f queue \<Rightarrow> 'f \<Rightarrow> 'f queue \<times> error option" where
  "update_estimation F cls duration =
     (let h1 = DURATION_HISTORY cls @ [duration];
          h2 = (if int (length h1) > DURATION_HISTORY_SIZE cls then tl h1 else h1);
          cls1 = cls \<lparr> DURATION_HISTORY := h2 \<rparr>
      in if length h2 = 0 \<or> MAX_THREAD_COUNT cls = 0 then (cls1, Some ZeroDivisionError)
         else (cls1 \<lparr> ESTIMATION :=
                 PFloat (fround F
                   (fadd F
                      (fdiv F (fdiv F (fsum F h2) (fof_int F (int (length h2))))
                              (fof_int F (MAX_THREAD_COUNT cls)))
                      duration) 2) \<rparr>, None))"

subsection \<open>The \<open>Estimation\<close> model\<close>

record estimation =
  msg :: "string option"
  queue_size :: int
  queue_duration :: int

text \<open>
  Constructing the model validates the fields: an \<open>int\<close> is kept, a float goes
  through the coercion \<open>fint\<close>, whose failure is a validation error.
\<close>

definition Estimation :: "'f float_ops \<Rightarrow> int \<Rightarrow> 'f pynum \<Rightarrow> error + estimation" where
  "Estimation F qsize qduration =
     (case qduration of
        PInt k \<Rightarrow> Inr \<lparr> msg = Some ''estimation'', queue_size = qsize, queue_duration = k \<rparr>
      | PFloat x \<Rightarrow>
          (case fint F x of
             None \<Rightarrow> Inl ValidationError
           | Some k \<Rightarrow>
               Inr \<lparr> msg = Some ''estimation'', queue_size = qsize, queue_duration = k \<rparr>))"

definition get_estimation :: "'f float_ops \<Rightarrow> 'f queue \<Rightarrow> error + estimation" where
  "get_estimation F cls =
     Estimation F (int (length (EVENT_QUEUE cls))) (ESTIMATION cls)"

definition estimation_dict :: "estimation \<Rightarrow> 'f json" where
  "estimation_dict est =
     JObj [(''msg'', (case msg est of None \<Rightarrow> JNull | Some s \<Rightarrow> JStr s)),
           (''queue_size'', JInt (queue_size est)),
           (''queue_duration'', JInt (queue_duration est))]"

section \<open>Events, client channels and coroutines\<close>

text \<open>
  The world holds the class attributes, the attributes and the websocket of every
  \<open>Event\<close>, and the coroutines of the event loop.

  The client channel is outside the sources (a \<open>fastapi.WebSocket\<close>); it is modelled
  from the spec's channel contract and glossary: a send never throws and reports failure
  as \<open>False\<close>, a receive yields a message or fails, and a dead channel "no longer
  accepts sends or yields no further input". \<open>alive\<close> is the client's side (only the
  client can clear it), \<open>closed\<close> records the server's \<open>close\<close>, and \<open>sent\<close> is the
  sequence of messages delivered to the client.
\<close>

datatype gather_pc = G_Start | G_Send | G_Recv

datatype 'f process_pc =
    P_Gather gather_pc
  | P_Starts
  | P_Request
  | P_Completed "'f json"
  | P_Disconnect

datatype notify_pc = N_Loop | N_Sleep

datatype 'f task =
    StartProcessing
  | NotifyClients notify_pc
  | ProcessEvent "'f process_pc" event
  | GatherFirstRanks
  | GatherEventData gather_pc event
  | BroadcastEstimation
  | SendEstimation event estimation
  | Finished
  | Failed error

record 'f world =
  cls :: "'f queue"
  data :: "event \<Rightarrow> 'f json"
  alive :: "event \<Rightarrow> bool"
  closed :: "event \<Rightarrow> bool"
  sent :: "event \<Rightarrow> 'f json list"
  tasks :: "'f task list"

text \<open>What the environment hands to a coroutine that resumes from an \<open>await\<close>.\<close>

datatype 'f backend = Raised | Returned "'f json option" 'f 'f

datatype 'f input = NoInput | Frame "'f json option" | Response "'f backend"

text \<open>
  \<open>Frame (Some j)\<close> is a client frame that parses to \<open>j\<close>, \<open>Frame None\<close> one that
  \<open>receive_json\<close> rejects.

  The backend call is \<open>gradio.utils.Request\<close>, outside the sources, so each way it can
  end is an input. \<open>Raised\<close> is \<open>await Request(...)\<close> raising. \<open>Returned r b t\<close>
  is the await returning between the clock readings \<open>b\<close> and \<open>t\<close>, where \<open>r\<close> is
  what reading \<open>response.json\<close> then gives: \<open>Some j\<close> for a body \<open>j\<close>, which is
  the prediction of a call that succeeded or whatever body a failed call came back
  with (the dispatcher never tells them apart), and \<open>None\<close> when the read itself
  raises (\<open>ResponseError\<close>), as for a call that failed before any body was parsed.
\<close>

subsection \<open>\<open>Event\<close>\<close>

definition send_message :: "'f world \<Rightarrow> event \<Rightarrow> 'f json \<Rightarrow> bool \<times> 'f world" where
  "send_message w event m =
     (if alive w event \<and> \<not> closed w event
      then (True, w \<lparr> sent := (sent w)(event := sent w event @ [m]) \<rparr>)
      else (False, w))"

definition get_message :: "'f world \<Rightarrow> event \<Rightarrow> 'f json option \<Rightarrow> 'f json" where
  "get_message w event frame =
     (if alive w event \<and> \<not> closed w event
      then (case frame of Some j \<Rightarrow> j | None \<Rightarrow> JNull)
      else JNull)"

definition disconnect :: "'f world \<Rightarrow> event \<Rightarrow> 'f world" where
  "disconnect w event = w \<lparr> closed := (closed w)(event := True) \<rparr>"

definition send_data_msg :: "'f json" where
  "send_data_msg = JObj [(''msg'', JStr ''send_data'')]"

definition process_starts_msg :: "'f json" where
  "process_starts_msg = JObj [(''msg'', JStr ''process_starts'')]"

definition process_completed_msg :: "'f json \<Rightarrow> 'f json" where
  "process_completed_msg output =
     JObj [(''msg'', JStr ''process_completed''), (''output'', output)]"

subsection \<open>\<open>gather_event_data\<close>\<close>

text \<open>
  One step runs the coroutine from one suspension to the next. \<open>G_Start\<close> is the test
  of \<open>event.data\<close>, \<open>G_Send\<close> the completion of the send of \<open>send_data\<close> (followed,
  on failure, by \<open>clean_event\<close> and the return), \<open>G_Recv\<close> the completion of
  \<open>get_message\<close>. The result \<open>None\<close> is the return of the coroutine.
\<close>

definition gather_event_data ::
  "'f float_ops \<Rightarrow> 'f world \<Rightarrow> event \<Rightarrow> gather_pc \<Rightarrow> 'f input
     \<Rightarrow> gather_pc option \<times> 'f world" where
  "gather_event_data F w event pc inp =
     (case pc of
        G_Start \<Rightarrow>
          (if \<not> truthy F (data w event) then (Some G_Send, w) else (None, w))
      | G_Send \<Rightarrow>
          (case send_message w event send_data_msg of
             (client_awake, w1) \<Rightarrow>
               (if \<not> client_awake
                then (None, w1 \<lparr> cls := clean_event (cls w1) event \<rparr>)
                else (Some G_Recv, w1)))
      | G_Recv \<Rightarrow>
          (case inp of
             Frame frame \<Rightarrow>
               (None, w \<lparr> data := (data w)(event := get_message w event frame) \<rparr>)
           | _ \<Rightarrow> (Some G_Recv, w)))"

subsection \<open>\<open>process_event\<close>\<close>

definition do_clean_job :: "'f world \<Rightarrow> event \<Rightarrow> 'f task \<times> 'f world" where
  "do_clean_job w event =
     (case clean_job (cls w) event of
        Inl err \<Rightarrow> (Failed err, w)
      | Inr cls' \<Rightarrow> (Finished, w \<lparr> cls := cls' \<rparr>))"

text \<open>
  \<open>P_Gather\<close> is the inlined \<open>await cls.gather_event_data(event)\<close>; whichever way
  it returns, the next suspension is the send of \<open>process_starts\<close>. \<open>P_Request\<close>
  is the completion of the backend call: when the await returns, the estimator is updated
  first, and \<open>response.json\<close> is read after that, to build the message.
  \<open>P_Completed\<close> is the completion of the send of the result, \<open>P_Disconnect\<close> of
  \<open>event.disconnect()\<close>.
\<close>

definition process_event ::
  "'f float_ops \<Rightarrow> 'f world \<Rightarrow> event \<Rightarrow> 'f process_pc \<Rightarrow> 'f input
     \<Rightarrow> 'f task \<times> 'f world" where
  "process_event F w event pc inp =
     (case pc of
        P_Gather g \<Rightarrow>
          (case gather_event_data F w event g inp of
             (Some g', w1) \<Rightarrow> (ProcessEvent (P_Gather g') event, w1)
           | (None, w1) \<Rightarrow> (ProcessEvent P_Starts event, w1))
      | P_Starts \<Rightarrow>
          (case send_message w event process_starts_msg of
             (client_awake, w1) \<Rightarrow>
               (if \<not> client_awake then do_clean_job w1 event
                else (ProcessEvent P_Request event, w1)))
      | P_Request \<Rightarrow>
          (case inp of
             Response Raised \<Rightarrow> (Failed BackendError, w)
           | Response (Returned response_json begin_time end_time) \<Rightarrow>
               (case update_estimation F (cls w)
                       (fround F (fsub F end_time begin_time) 3) of
                  (cls1, Some err) \<Rightarrow> (Failed err, w \<lparr> cls := cls1 \<rparr>)
                | (cls1, None) \<Rightarrow>
                    (case response_json of
                       None \<Rightarrow> (Failed ResponseError, w \<lparr> cls := cls1 \<rparr>)
                     | Some output \<Rightarrow>
                         (ProcessEvent (P_Completed output) event, w \<lparr> cls := cls1 \<rparr>)))
           | _ \<Rightarrow> (ProcessEvent P_Request event, w))
      | P_Completed output \<Rightarrow>
          (case send_message w event (process_completed_msg output) of
             (client_awake, w1) \<Rightarrow>
               (if client_awake then (ProcessEvent P_Disconnect event, w1)
                else do_clean_job w1 event))
      | P_Disconnect \<Rightarrow> do_clean_job (disconnect w event) event)"

subsection \<open>Broadcasts and prefetch\<close>

text \<open>
  \<open>asyncio.gather\<close> runs one coroutine per event of the snapshot; nothing follows
  it in the parent, so the parent ends when it has launched them.
\<close>

definition gather_data_for_first_ranks :: "'f world \<Rightarrow> 'f task list" where
  "gather_data_for_first_ranks w =
     map (GatherEventData G_Start)
       (py_slice_to (EVENT_QUEUE (cls w)) (DATA_GATHERING_STARTS_AT (cls w)))"

definition broadcast_estimation :: "'f float_ops \<Rightarrow> 'f world \<Rightarrow> error + 'f task list" where
  "broadcast_estimation F w =
     (case get_estimation F (cls w) of
        Inl err \<Rightarrow> Inl err
      | Inr est \<Rightarrow> Inr (map (\<lambda>event. SendEstimation event est) (EVENT_QUEUE (cls w))))"

definition send_estimation :: "'f world \<Rightarrow> event \<Rightarrow> estimation \<Rightarrow> 'f world" where
  "send_estimation w event est =
     (case send_message w event (estimation_dict est) of
        (client_awake, w1) \<Rightarrow>
          (if \<not> client_awake then w1 \<lparr> cls := clean_event (cls w1) event \<rparr> else w1))"

subsection \<open>The two loops\<close>

text \<open>
  One step of \<open>start_processing\<close> is one iteration of its loop: the test of
  \<open>STOP\<close>, the two back-off branches, and the admission. It returns the coroutine's
  next state, the coroutines it launched and the new world.
\<close>

definition start_processing :: "'f world \<Rightarrow> 'f task \<times> 'f task list \<times> 'f world" where
  "start_processing w =
     (if STOP (cls w) then (Finished, [], w)
      else if EVENT_QUEUE (cls w) = [] then (StartProcessing, [], w)
      else if None \<notin> set (ACTIVE_JOBS (cls w)) then (StartProcessing, [], w)
      else
        (case py_pop0 (EVENT_QUEUE (cls w)) of
           Inl err \<Rightarrow> (Failed err, [], w)
         | Inr (event, rest) \<Rightarrow>
             (let w1 = w \<lparr> cls := (cls w) \<lparr> EVENT_QUEUE := rest \<rparr> \<rparr> in
              (case py_index (ACTIVE_JOBS (cls w1)) None of
                 Inl err \<Rightarrow> (Failed err, [], w1)
               | Inr i \<Rightarrow>
                   (StartProcessing,
                    [ProcessEvent (P_Gather G_Start) event, GatherFirstRanks]
                      @ (if LIVE_QUEUE_UPDATES (cls w1) then [BroadcastEstimation] else []),
                    w1 \<lparr> cls := (cls w1)
                          \<lparr> ACTIVE_JOBS := (ACTIVE_JOBS (cls w1))[i := Some event] \<rparr> \<rparr>)))))"

text \<open>
  \<open>notify_clients\<close>: \<open>N_Loop\<close> is the loop test before the first sleep,
  \<open>N_Sleep\<close> the end of a sleep, followed by the broadcast and the next loop test.
\<close>

definition notify_clients ::
  "'f float_ops \<Rightarrow> 'f world \<Rightarrow> notify_pc \<Rightarrow> 'f task \<times> 'f task list" where
  "notify_clients F w pc =
     (let again = (if STOP (cls w) then Finished else NotifyClients N_Sleep) in
      (case pc of
         N_Loop \<Rightarrow> (again, [])
       | N_Sleep \<Rightarrow>
           (if EVENT_QUEUE (cls w) = [] then (again, [])
            else (case broadcast_estimation F w of
                    Inl err \<Rightarrow> (Failed err, [])
                  | Inr ts \<Rightarrow> (again, ts)))))"

subsection \<open>The event loop\<close>

definition run_task ::
  "'f float_ops \<Rightarrow> 'f world \<Rightarrow> 'f task \<Rightarrow> 'f input
     \<Rightarrow> 'f task \<times> 'f task list \<times> 'f world" where
  "run_task F w t inp =
     (case t of
        StartProcessing \<Rightarrow> start_processing w
      | NotifyClients pc \<Rightarrow>
          (case notify_clients F w pc of (t', ts) \<Rightarrow> (t', ts, w))
      | ProcessEvent pc event \<Rightarrow>
          (case process_event F w event pc inp of (t', w1) \<Rightarrow> (t', [], w1))
      | GatherFirstRanks \<Rightarrow> (Finished, gather_data_for_first_ranks w, w)
      | GatherEventData pc event \<Rightarrow>
          (case gather_event_data F w event pc inp of
             (Some pc', w1) \<Rightarrow> (GatherEventData pc' event, [], w1)
           | (None, w1) \<Rightarrow> (Finished, [], w1))
      | BroadcastEstimation \<Rightarrow>
          (case broadcast_estimation F w of
             Inl err \<Rightarrow> (Failed err, [], w)
           | Inr ts \<Rightarrow> (Finished, ts, w))
      | SendEstimation event est \<Rightarrow> (Finished, [], send_estimation w event est)
      | Finished \<Rightarrow> (Finished, [], w)
      | Failed err \<Rightarrow> (Failed err, [], w))"

text \<open>
  What can happen next: a call of the public interface (\<open>push\<close>, \<open>clean_event\<close>,
  \<open>close\<close>, \<open>resume\<close>, \<open>init\<close>), a client going away, or the event loop resuming
  coroutine \<open>i\<close> with what it awaited.
\<close>

datatype 'f action =
    Push event
  | Cancel event
  | Die event
  | Close
  | Resume
  | Init
  | Run nat "'f input"

definition step :: "'f float_ops \<Rightarrow> 'f world \<Rightarrow> 'f action \<Rightarrow> 'f world" where
  "step F w a =
     (case a of
        Push event \<Rightarrow> w \<lparr> cls := push (cls w) event \<rparr>
      | Cancel event \<Rightarrow> w \<lparr> cls := clean_event (cls w) event \<rparr>
      | Die event \<Rightarrow> w \<lparr> alive := (alive w)(event := False) \<rparr>
      | Close \<Rightarrow> w \<lparr> cls := close (cls w) \<rparr>
      | Resume \<Rightarrow> w \<lparr> cls := resume (cls w) \<rparr>
      | Init \<Rightarrow> w \<lparr> tasks := tasks w @ [NotifyClients N_Loop, StartProcessing] \<rparr>
      | Run i inp \<Rightarrow>
          (if i < length (tasks w)
           then (case run_task F w (tasks w ! i) inp of
                   (t', ts, w1) \<Rightarrow> w1 \<lparr> tasks := (tasks w1)[i := t'] @ ts \<rparr>)
           else w))"

fun run :: "'f float_ops \<Rightarrow> 'f world \<Rightarrow> 'f action list \<Rightarrow> 'f world" where
  "run F w [] = w"
| "run F w (a # as) = run F (step F w a) as"

text \<open>A configured dispatcher before \<open>init\<close>: no event exists yet.\<close>

definition world0 :: "'f queue \<Rightarrow> 'f world" where
  "world0 c =
     \<lparr> cls = c, data = (\<lambda>event. JNull), alive = (\<lambda>event. True),
       closed = (\<lambda>event. False), sent = (\<lambda>event. []), tasks = [] \<rparr>"

subsection \<open>Observations of a run\<close>

text \<open>The events held by a slot pool, by slot index, and those of the world.\<close>

fun slot_events :: "event option list \<Rightarrow> event list" where
  "slot_events [] = []"
| "slot_events (None # slots) = slot_events slots"
| "slot_events (Some e # slots) = e # slot_events slots"

definition occupied :: "'f world \<Rightarrow> event list" where
  "occupied w = slot_events (ACTIVE_JOBS (cls w))"

fun pushes :: "'f action list \<Rightarrow> event list" where
  "pushes [] = []"
| "pushes (Push e # as) = e # pushes as"
| "pushes (a # as) = pushes as"

text \<open>The events for which a step launches a job-execution coroutine.\<close>

fun launched_event :: "'f task \<Rightarrow> event list" where
  "launched_event (ProcessEvent pc e) = [e]"
| "launched_event t = []"

definition launched :: "'f float_ops \<Rightarrow> 'f world \<Rightarrow> 'f action \<Rightarrow> event list" where
  "launched F w a =
     concat (map launched_event (drop (length (tasks w)) (tasks (step F w a))))"

fun admitted :: "'f float_ops \<Rightarrow> 'f world \<Rightarrow> 'f action list \<Rightarrow> event list" where
  "admitted F w [] = []"
| "admitted F w (a # as) = launched F w a @ admitted F (step F w a) as"

text \<open>
  A step of the admission loop, an enqueue or a stop/resume: the actions of a run
  in which no job is cancelled and no other coroutine is resumed.
\<close>

fun enqueue_or_admit :: "nat \<Rightarrow> 'f action \<Rightarrow> bool" where
  "enqueue_or_admit i (Push e) = True"
| "enqueue_or_admit i Close = True"
| "enqueue_or_admit i Resume = True"
| "enqueue_or_admit i (Run j inp) = (j = i)"
| "enqueue_or_admit i a = False"


text \<open>The four messages the dispatcher sends.\<close>

definition dispatcher_msg :: "'f json \<Rightarrow> bool" where
  "dispatcher_msg m \<longleftrightarrow>
     m = send_data_msg \<or> m = process_starts_msg
     \<or> (\<exists>output. m = process_completed_msg output)
     \<or> (\<exists>est. m = estimation_dict est)"

text \<open>
  How one step may change the slot pool and the pending queue (\<open>shrinks\<close>: jobs
  move or leave, none appears), and the channels (\<open>chan_evolves\<close>: a channel never
  comes back, and gets at most one more dispatcher message, only while it is up).
\<close>

definition shrinks :: "'f queue \<Rightarrow> 'f queue \<Rightarrow> bool" where
  "shrinks c c' \<longleftrightarrow>
     length (ACTIVE_JOBS c') = length (ACTIVE_JOBS c)
     \<and> MAX_THREAD_COUNT c' = MAX_THREAD_COUNT c
     \<and> mset (EVENT_QUEUE c' @ slot_events (ACTIVE_JOBS c'))
         \<subseteq># mset (EVENT_QUEUE c @ slot_events (ACTIVE_JOBS c))"

definition chan_evolves :: "'f world \<Rightarrow> 'f world \<Rightarrow> bool" where
  "chan_evolves w w' \<longleftrightarrow>
     (\<forall>e. (alive w' e \<longrightarrow> alive w e) \<and> (closed w e \<longrightarrow> closed w' e)
          \<and> (sent w' e = sent w e
              \<or> (alive w e \<and> \<not> closed w e
                  \<and> (\<exists>m. dispatcher_msg m \<and> sent w' e = sent w e @ [m]))))"

subsection \<open>Python floats\<close>

text \<open>
  The instance of the float operations used on concrete inputs: binary64 arithmetic.
  A finite double is the rational it denotes, and every operation is the exact one
  followed by rounding to the nearest double, ties to even (infinities and NaN are not
  modelled). \<open>ilog2 x\<close> is the exponent of a positive \<open>x\<close>, \<open>scale2 x e\<close> is
  \<open>x * 2^e\<close>, and \<open>binary64\<close> rounds to 53 significant bits (to a multiple of
  \<open>2^-1074\<close> in the subnormal range).
\<close>

function ilog2 :: "rat \<Rightarrow> int" where
  "ilog2 x =
     (if 2 \<le> x then ilog2 (x / 2) + 1
      else if 0 < x \<and> x < 1 then ilog2 (2 * x) - 1
      else 0)"
  by pat_completeness auto
termination
proof (relation "measure (\<lambda>x. if 1 \<le> x then nat \<lceil>x\<rceil> else nat \<lceil>1 / x\<rceil> + 2)")
  show "wf (measure (\<lambda>x::rat. if 1 \<le> x then nat \<lceil>x\<rceil> else nat \<lceil>1 / x\<rceil> + 2))"
    by simp
next
  fix x :: rat
  assume x: "2 \<le> x"
  have "\<lceil>x / 2\<rceil> < \<lceil>x\<rceil>"
  proof -
    have "x / 2 \<le> x - 1" using x by simp
    then have "\<lceil>x / 2\<rceil> \<le> \<lceil>x - 1\<rceil>" by (rule ceiling_mono)
    also have "\<dots> = \<lceil>x\<rceil> - 1" by simp
    finally show ?thesis by simp
  qed
  moreover have "0 < \<lceil>x\<rceil>" using x by (simp add: ceiling_less_iff less_ceiling_iff)
  ultimately show "(x / 2, x) \<in> measure (\<lambda>x. if 1 \<le> x then nat \<lceil>x\<rceil> else nat \<lceil>1 / x\<rceil> + 2)"
    using x by simp
next
  fix x :: rat
  assume "\<not> 2 \<le> x" and x: "0 < x \<and> x < 1"
  show "(2 * x, x) \<in> measure (\<lambda>x. if 1 \<le> x then nat \<lceil>x\<rceil> else nat \<lceil>1 / x\<rceil> + 2)"
  proof (cases "1 \<le> 2 * x")
    case True
    have "2 * x < 2" using x by simp
    then have up: "\<lceil>2 * x\<rceil> \<le> 2" by (simp add: ceiling_le_iff)
    have "1 < 1 / x" using x by simp
    then have "1 < \<lceil>1 / x\<rceil>" by (simp only: less_ceiling_iff of_int_1)
    with up have "nat \<lceil>2 * x\<rceil> < nat \<lceil>1 / x\<rceil> + 2" by linarith
    then show ?thesis using True x by simp
  next
    case False
    then have y: "2 < 1 / x" using x by (simp add: field_simps)
    have "1 / (2 * x) \<le> 1 / x - 1"
    proof -
      have "1 / (2 * x) = (1 / x) / 2" by simp
      also have "\<dots> \<le> 1 / x - 1" using y by simp
      finally show ?thesis .
    qed
    then have "\<lceil>1 / (2 * x)\<rceil> \<le> \<lceil>1 / x - 1\<rceil>" by (rule ceiling_mono)
    also have "\<dots> = \<lceil>1 / x\<rceil> - 1" by simp
    finally have less: "\<lceil>1 / (2 * x)\<rceil> < \<lceil>1 / x\<rceil>" by simp
    have "(2::rat) < of_int \<lceil>1 / x\<rceil>"
      using y le_of_int_ceiling [of "1 / x"] by linarith
    then have "0 < \<lceil>1 / x\<rceil>" by linarith
    with less show ?thesis using False x by simp
  qed
qed

declare ilog2.simps [simp del]

definition round_half_even :: "rat \<Rightarrow> int" where
  "round_half_even x =
     (let f = \<lfloor>x\<rfloor>; r = x - of_int f
      in if r < 1 / 2 then f
         else if 1 / 2 < r then f + 1
         else if even f then f else f + 1)"

definition scale2 :: "rat \<Rightarrow> int \<Rightarrow> rat" where
  "scale2 x e = (if 0 \<le> e then x * 2 ^ nat e else x / 2 ^ nat (- e))"

definition binary64 :: "rat \<Rightarrow> rat" where
  "binary64 x =
     (if x = 0 then 0
      else (let e = max (ilog2 \<bar>x\<bar> - 52) (- 1074)
            in scale2 (of_int (round_half_even (scale2 x (- e)))) e))"

text \<open>
  \<open>round(x, n)\<close> takes the decimal number with \<open>n\<close> places nearest to the exact
  value of the double \<open>x\<close>, ties to even, and returns the double nearest to it. The
  coercion \<open>fint\<close> is the truncation of \<open>int(x)\<close>.
\<close>

definition ieee_ops :: "rat float_ops" where
  "ieee_ops =
     \<lparr> fadd = (\<lambda>x y. binary64 (x + y)), fsub = (\<lambda>x y. binary64 (x - y)),
       fdiv = (\<lambda>x y. binary64 (x / y)),
       fof_int = (\<lambda>n. binary64 (of_int n)),
       fround = (\<lambda>x n. binary64 (of_int (round_half_even (x * 10 ^ n)) / 10 ^ n)),
       fint = (\<lambda>x. Some (if 0 \<le> x then \<lfloor>x\<rfloor> else \<lceil>x\<rceil>)),
       fis_zero = (\<lambda>x. x = 0) \<rparr>"

text \<open>The estimator fed with the durations of successive jobs.\<close>

fun record_durations :: "'f float_ops \<Rightarrow> 'f queue \<Rightarrow> 'f list \<Rightarrow> 'f queue" where
  "record_durations F c [] = c"
| "record_durations F c (d # ds) = record_durations F (fst (update_estimation F c d)) ds"

definition estimator :: "rat queue" where
  "estimator = configure_queue Queue_class ''http://x/'' True 4 30 5 3"

definition no_window :: "rat queue" where
  "no_window = configure_queue Queue_class ''http://x/'' True 1 30 5 0"

text \<open>What every step of a coroutine guarantees; it leaves the list of coroutines alone.\<close>

definition ok_step :: "'f world \<Rightarrow> 'f world \<Rightarrow> bool" where
  "ok_step w w' \<longleftrightarrow> shrinks (cls w) (cls w') \<and> chan_evolves w w' \<and> tasks w' = tasks w"


text \<open>The jobs the dispatcher holds: the pending ones, then those in slots.\<close>

definition jobs :: "'f queue \<Rightarrow> event list" where
  "jobs c = EVENT_QUEUE c @ slot_events (ACTIVE_JOBS c)"

text \<open>The states of the admission loop: running, returned, or ended by an exception.\<close>

fun admission_loop :: "'f task \<Rightarrow> bool" where
  "admission_loop StartProcessing = True"
| "admission_loop Finished = True"
| "admission_loop (Failed err) = True"
| "admission_loop t = False"

text \<open>Concrete runs: a dispatcher with two slots, just started.\<close>

definition started :: "rat world" where
  "started =
     step ieee_ops (world0 (configure_queue Queue_class ''http://x/'' True 2 30 5 100)) Init"

definition arrivals :: "rat action list" where
  "arrivals =
     [Push 1, Run 1 NoInput, Push 2, Push 3, Run 1 NoInput, Run 1 NoInput, Push 4]"



definition prefetching :: "rat world" where
  "prefetching = run ieee_ops started
     [Push 1, Push 2, Push 3, Run 1 NoInput, Run 1 NoInput, Run 3 NoInput, Run 6 NoInput]"

text \<open>The job of client 1 admitted, \<open>send_data\<close> delivered, the payload awaited.\<close>

definition receiving :: "rat world" where
  "receiving = run ieee_ops started [Push 1, Run 1 NoInput, Run 2 NoInput, Run 2 NoInput]"


text \<open>
  The messages a job's own coroutines send, and those together with the dictionaries of
  a set of \<open>Estimation\<close> models.
\<close>

definition job_msg :: "'f json \<Rightarrow> bool" where
  "job_msg m \<longleftrightarrow>
     m = send_data_msg \<or> m = process_starts_msg \<or> (\<exists>output. m = process_completed_msg output)"


text \<open>
  A step that leaves the coroutines alone and appends at most one message, of a given
  kind, to what each client received.
\<close>

definition sends :: "('f json \<Rightarrow> bool) \<Rightarrow> 'f world \<Rightarrow> 'f world \<Rightarrow> bool" where
  "sends P w w' \<longleftrightarrow>
     tasks w' = tasks w
     \<and> (\<forall>e. sent w' e = sent w e \<or> (\<exists>m. P m \<and> sent w' e = sent w e @ [m]))"









section \<open>Properties\<close>

subsection \<open>Lists and slots\<close>


lemma py_remove_eq:
  "py_remove xs x = (if x \<in> set xs then Inr (remove1 x xs) else Inl ValueError)"
  by (induction xs) auto

lemma py_index_Inr:
  "py_index xs x = Inr i \<Longrightarrow> i < length xs \<and> xs ! i = x"
proof (induction xs arbitrary: i)
  case Nil
  then show ?case by simp
next
  case (Cons y ys)
  then show ?case
    by (cases "y = x") (auto split: sum.splits)
qed

lemma py_index_Inl:
  "py_index xs x = Inl err \<Longrightarrow> x \<notin> set xs"
  by (induction xs) (auto split: sum.splits if_splits)


lemma length_slot_events: "length (slot_events xs) \<le> length xs"
  by (induction xs rule: slot_events.induct) auto


lemma slot_events_free:
  "mset (slot_events (xs[i := None])) \<subseteq># mset (slot_events xs)"
proof (induction xs arbitrary: i rule: slot_events.induct)
  case 1
  then show ?case by simp
next
  case (2 slots)
  then show ?case by (cases i) auto
next
  case (3 e slots)
  then show ?case by (cases i) (auto intro: subset_mset.order_trans)
qed

lemma slot_events_fill:
  "i < length xs \<Longrightarrow> xs ! i = None \<Longrightarrow>
   mset (slot_events (xs[i := Some e])) = add_mset e (mset (slot_events xs))"
proof (induction xs arbitrary: i rule: slot_events.induct)
  case 1
  then show ?case by simp
next
  case (2 slots)
  then show ?case by (cases i) auto
next
  case (3 e' slots)
  then show ?case by (cases i) auto
qed


lemma shrinks_refl: "shrinks c c"
  by (simp add: shrinks_def)

lemma shrinks_trans: "shrinks a b \<Longrightarrow> shrinks b c \<Longrightarrow> shrinks a c"
  unfolding shrinks_def by (metis subset_mset.order_trans)

lemma clean_event_shrinks: "shrinks c (clean_event c e)"
  by (auto simp: shrinks_def clean_event_def py_remove_eq)

lemma clean_job_shrinks: "clean_job c e = Inr c' \<Longrightarrow> shrinks c c'"
  by (auto simp: shrinks_def clean_job_def slot_events_free split: sum.splits)

lemma update_estimation_shrinks: "shrinks c (fst (update_estimation F c d))"
  by (simp add: shrinks_def update_estimation_def Let_def)


subsection \<open>Channels\<close>

lemma send_message_fields [simp]:
  "cls (snd (send_message w e m)) = cls w"
  "data (snd (send_message w e m)) = data w"
  "tasks (snd (send_message w e m)) = tasks w"
  "alive (snd (send_message w e m)) = alive w"
  "closed (snd (send_message w e m)) = closed w"
  by (simp_all add: send_message_def)

lemma send_message_fst: "fst (send_message w e m) \<longleftrightarrow> alive w e \<and> \<not> closed w e"
  by (simp add: send_message_def)

lemma send_message_sent:
  "sent (snd (send_message w e m)) =
     (if alive w e \<and> \<not> closed w e then (sent w)(e := sent w e @ [m]) else sent w)"
  by (simp add: send_message_def)

lemma chan_evolves_refl: "chan_evolves w w"
  by (simp add: chan_evolves_def)

lemma chan_evolves_upd [simp]:
  "chan_evolves w (w1 \<lparr> cls := c \<rparr>) = chan_evolves w w1"
  "chan_evolves w (w1 \<lparr> data := d \<rparr>) = chan_evolves w w1"
  "chan_evolves w (w1 \<lparr> tasks := ts \<rparr>) = chan_evolves w w1"
  by (simp_all add: chan_evolves_def)

lemma chan_evolves_send:
  "dispatcher_msg m \<Longrightarrow> chan_evolves w (snd (send_message w e m))"
  by (auto simp: chan_evolves_def send_message_def)

lemma chan_evolves_disconnect: "chan_evolves w (disconnect w e)"
  by (auto simp: chan_evolves_def disconnect_def)

lemma disconnect_fields [simp]:
  "cls (disconnect w e) = cls w" "tasks (disconnect w e) = tasks w"
  by (simp_all add: disconnect_def)

lemma dispatcher_msg_simps [simp]:
  "dispatcher_msg send_data_msg" "dispatcher_msg process_starts_msg"
  "dispatcher_msg (process_completed_msg out)" "dispatcher_msg (estimation_dict est)"
  by (auto simp: dispatcher_msg_def)

lemma ok_step_refl: "ok_step w w"
  by (simp add: ok_step_def shrinks_refl chan_evolves_refl)

lemma gather_event_data_ok:
  "gather_event_data F w e pc inp = (r, w') \<Longrightarrow> ok_step w w'"
  by (cases pc)
     (auto simp: gather_event_data_def ok_step_def shrinks_refl chan_evolves_refl
        clean_event_shrinks case_prod_beta chan_evolves_send
        split: if_splits input.splits)

lemma do_clean_job_ok:
  assumes "do_clean_job w1 e = (t, w')" and "ok_step w w1"
  shows "ok_step w w'"
proof (cases "clean_job (cls w1) e")
  case (Inl err)
  with assms show ?thesis by (simp add: do_clean_job_def)
next
  case (Inr c)
  then have "shrinks (cls w1) c" by (rule clean_job_shrinks)
  moreover from assms(2) have "shrinks (cls w) (cls w1)" by (simp add: ok_step_def)
  ultimately have "shrinks (cls w) c" by (blast intro: shrinks_trans)
  moreover from Inr assms(1) have "w' = w1 \<lparr> cls := c \<rparr>" by (simp add: do_clean_job_def)
  ultimately show ?thesis using assms(2) by (simp add: ok_step_def)
qed

lemma send_message_ok:
  "dispatcher_msg m \<Longrightarrow> ok_step w (snd (send_message w e m))"
  by (simp add: ok_step_def shrinks_refl chan_evolves_send)

lemma process_event_ok:
  assumes "process_event F w e pc inp = (t, w')"
  shows "ok_step w w'"
proof (cases pc)
  case (P_Gather g)
  with assms show ?thesis
    by (auto simp: process_event_def split: prod.splits option.splits
          dest: gather_event_data_ok)
next
  case P_Starts
  let ?sm = "send_message w e process_starts_msg"
  have ok: "ok_step w (snd ?sm)" by (simp add: send_message_ok)
  show ?thesis
  proof (cases "fst ?sm")
    case True
    with assms P_Starts have "w' = snd ?sm"
      by (simp add: process_event_def case_prod_beta)
    with ok show ?thesis by simp
  next
    case False
    with assms P_Starts have "do_clean_job (snd ?sm) e = (t, w')"
      by (simp add: process_event_def case_prod_beta)
    then show ?thesis using ok by (rule do_clean_job_ok)
  qed
next
  case P_Request
  have "shrinks (cls w) (fst (update_estimation F (cls w) d))" for d
    by (rule update_estimation_shrinks)
  then have "ok_step w (w \<lparr> cls := fst (update_estimation F (cls w) d) \<rparr>)" for d
    by (simp add: ok_step_def chan_evolves_refl)
  with assms P_Request show ?thesis
    by (auto simp: process_event_def ok_step_refl case_prod_beta
          split: input.splits backend.splits option.splits)
next
  case (P_Completed out)
  let ?sm = "send_message w e (process_completed_msg out)"
  have ok: "ok_step w (snd ?sm)" by (simp add: send_message_ok)
  show ?thesis
  proof (cases "fst ?sm")
    case True
    with assms P_Completed have "w' = snd ?sm"
      by (simp add: process_event_def case_prod_beta)
    with ok show ?thesis by simp
  next
    case False
    with assms P_Completed have "do_clean_job (snd ?sm) e = (t, w')"
      by (simp add: process_event_def case_prod_beta)
    then show ?thesis using ok by (rule do_clean_job_ok)
  qed
next
  case P_Disconnect
  have ok: "ok_step w (disconnect w e)"
    by (simp add: ok_step_def shrinks_refl chan_evolves_disconnect)
  from assms P_Disconnect have "do_clean_job (disconnect w e) e = (t, w')"
    by (simp add: process_event_def)
  then show ?thesis using ok by (rule do_clean_job_ok)
qed

lemma send_estimation_ok: "ok_step w (send_estimation w e est)"
  by (simp add: send_estimation_def case_prod_beta ok_step_def
        clean_event_shrinks shrinks_refl chan_evolves_send)


lemma start_processing_ok:
  assumes "start_processing w = (t, ts, w')"
  shows "ok_step w w'"
proof -
  have fill: "shrinks c (c \<lparr> EVENT_QUEUE := rest,
                  ACTIVE_JOBS := (ACTIVE_JOBS c)[i := Some e] \<rparr>)"
    if "EVENT_QUEUE c = e # rest" "py_index (ACTIVE_JOBS c) None = Inr i" for c :: "'a queue" and e rest i
    using that py_index_Inr [of "ACTIVE_JOBS c" None i]
    by (simp add: shrinks_def slot_events_fill)
  have pop: "shrinks c (c \<lparr> EVENT_QUEUE := rest \<rparr>)"
    if "EVENT_QUEUE c = e # rest" for c :: "'a queue" and e rest
    using that by (simp add: shrinks_def)
  from assms show ?thesis
    by (cases "EVENT_QUEUE (cls w)")
       (auto simp: start_processing_def ok_step_def shrinks_refl chan_evolves_refl
          chan_evolves_def Let_def fill pop
          split: if_splits sum.splits)
qed

lemma run_task_ok:
  assumes "run_task F w t inp = (t', ts, w')"
  shows "ok_step w w'"
  using assms
  by (cases t)
     (auto simp: run_task_def ok_step_refl send_estimation_ok
        split: prod.splits option.splits sum.splits
        dest: start_processing_ok process_event_ok gather_event_data_ok)


subsection \<open>Configuration\<close>

text \<open>
  C9: \<open>configure_queue\<close> stores 10 as the broadcast interval exactly when live updates
  are disabled and the interval passed is 5; in every other case it stores the interval
  passed.
\<close>

theorem C9_configure_update_intervals:
  "UPDATE_INTERVALS (configure_queue c sp live n dg ui hs) =
     (if \<not> live \<and> ui = 5 then 10 else ui)"
  by (simp add: configure_queue_def Let_def)

theorem C9_witness:
  "UPDATE_INTERVALS (configure_queue (Queue_class :: rat queue) ''http://x/'' False 1 30 5 100) = 10
   \<and> UPDATE_INTERVALS (configure_queue (Queue_class :: rat queue) ''http://x/'' True 1 30 5 100) = 5
   \<and> UPDATE_INTERVALS (configure_queue (Queue_class :: rat queue) ''http://x/'' False 1 30 7 100) = 7"
  using C9_configure_update_intervals [of "Queue_class :: rat queue" "''http://x/''" False 1 30 5 100]
    C9_configure_update_intervals [of "Queue_class :: rat queue" "''http://x/''" True 1 30 5 100]
    C9_configure_update_intervals [of "Queue_class :: rat queue" "''http://x/''" False 1 30 7 100]
  by simp

subsection \<open>Cancellation\<close>

text \<open>
  C7: cancelling a job (\<open>clean_event\<close>) removes it from the pending queue when it is
  there (its first occurrence; the only one when the queue has no duplicates) and
  changes nothing else; cancelling a job that is not in the pending queue, whether
  unknown, already removed or admitted into a slot, raises nothing and leaves the
  whole state as it was.
\<close>

theorem C7_clean_event:
  "(e \<in> set (EVENT_QUEUE (cls w)) \<longrightarrow>
      step F w (Cancel e)
        = w \<lparr> cls := (cls w) \<lparr> EVENT_QUEUE := remove1 e (EVENT_QUEUE (cls w)) \<rparr> \<rparr>
      \<and> Suc (length (EVENT_QUEUE (cls (step F w (Cancel e))))) = length (EVENT_QUEUE (cls w))
      \<and> (distinct (EVENT_QUEUE (cls w)) \<longrightarrow>
            e \<notin> set (EVENT_QUEUE (cls (step F w (Cancel e))))))
   \<and> (e \<notin> set (EVENT_QUEUE (cls w)) \<longrightarrow> step F w (Cancel e) = w)"
  by (auto simp: step_def clean_event_def py_remove_eq length_remove1
        dest: length_pos_if_in_set)

theorem C7_witness:
  "(2::nat) \<in> set [1, 2, 3] \<and> distinct [1::nat, 2, 3] \<and> (5::nat) \<notin> set [1, 2, 3]
   \<and> EVENT_QUEUE (cls (step ieee_ops
         (world0 (Queue_class \<lparr> EVENT_QUEUE := [1, 2, 3], ACTIVE_JOBS := [Some 5] \<rparr>))
         (Cancel 2))) = [1, 3]
   \<and> step ieee_ops
         (world0 (Queue_class \<lparr> EVENT_QUEUE := [1, 2, 3], ACTIVE_JOBS := [Some 5] \<rparr>))
         (Cancel 5)
       = world0 (Queue_class \<lparr> EVENT_QUEUE := [1, 2, 3], ACTIVE_JOBS := [Some 5] \<rparr>)"
  using C7_clean_event [of 2
          "world0 (Queue_class \<lparr> EVENT_QUEUE := [1, 2, 3], ACTIVE_JOBS := [Some 5] \<rparr>)"
          ieee_ops]
    C7_clean_event [of 5
          "world0 (Queue_class \<lparr> EVENT_QUEUE := [1, 2, 3], ACTIVE_JOBS := [Some 5] \<rparr>)"
          ieee_ops]
  by (simp add: world0_def)

subsection \<open>What a step preserves\<close>

lemma step_chan_evolves: "chan_evolves w (step F w a)"
proof (cases a)
  case (Run i inp)
  show ?thesis
  proof (cases "i < length (tasks w)")
    case True
    obtain t' ts w1 where r: "run_task F w (tasks w ! i) inp = (t', ts, w1)"
      by (cases "run_task F w (tasks w ! i) inp") auto
    then have "ok_step w w1" by (rule run_task_ok)
    with r True Run show ?thesis by (simp add: step_def ok_step_def)
  next
    case False
    with Run show ?thesis by (simp add: step_def chan_evolves_refl)
  qed
next
  case (Die e)
  then show ?thesis by (simp add: step_def chan_evolves_def)
qed (simp_all add: step_def chan_evolves_refl)

lemma step_shrinks:
  assumes "\<And>e. a \<noteq> Push e"
  shows "shrinks (cls w) (cls (step F w a))"
proof (cases a)
  case (Run i inp)
  show ?thesis
  proof (cases "i < length (tasks w)")
    case True
    obtain t' ts w1 where r: "run_task F w (tasks w ! i) inp = (t', ts, w1)"
      by (cases "run_task F w (tasks w ! i) inp") auto
    then have "ok_step w w1" by (rule run_task_ok)
    with r True Run show ?thesis by (simp add: step_def ok_step_def)
  next
    case False
    with Run show ?thesis by (simp add: step_def shrinks_refl)
  qed
next
  case (Push e)
  with assms show ?thesis by blast
next
  case (Cancel e)
  then show ?thesis by (simp add: step_def clean_event_shrinks)
qed (simp_all add: step_def shrinks_def close_def resume_def)

lemma step_jobs:
  "length (ACTIVE_JOBS (cls (step F w a))) = length (ACTIVE_JOBS (cls w))
   \<and> MAX_THREAD_COUNT (cls (step F w a)) = MAX_THREAD_COUNT (cls w)
   \<and> mset (jobs (cls (step F w a))) \<subseteq># mset (jobs (cls w)) + mset (pushes [a])"
proof (cases "\<exists>e. a = Push e")
  case True
  then show ?thesis by (auto simp: step_def push_def jobs_def)
next
  case False
  then have "shrinks (cls w) (cls (step F w a))" by (simp add: step_shrinks)
  moreover from False have "pushes [a] = []" by (cases a) auto
  ultimately show ?thesis by (simp add: shrinks_def jobs_def)
qed

lemma pushes_Cons: "mset (pushes (a # as)) = mset (pushes [a]) + mset (pushes as)"
  by (cases a) auto

lemma run_jobs:
  "length (ACTIVE_JOBS (cls (run F w acts))) = length (ACTIVE_JOBS (cls w))
   \<and> MAX_THREAD_COUNT (cls (run F w acts)) = MAX_THREAD_COUNT (cls w)
   \<and> mset (jobs (cls (run F w acts))) \<subseteq># mset (jobs (cls w)) + mset (pushes acts)"
proof (induction acts arbitrary: w)
  case Nil
  then show ?case by simp
next
  case (Cons a as)
  have s: "mset (jobs (cls (step F w a))) \<subseteq># mset (jobs (cls w)) + mset (pushes [a])"
    using step_jobs [of F w a] by simp
  have "mset (jobs (cls (run F (step F w a) as)))
          \<subseteq># mset (jobs (cls (step F w a))) + mset (pushes as)"
    using Cons.IH [of "step F w a"] by simp
  also have "\<dots> \<subseteq># (mset (jobs (cls w)) + mset (pushes [a])) + mset (pushes as)"
    using s by (simp add: subset_mset.add_right_mono)
  finally have "mset (jobs (cls (run F (step F w a) as)))
                  \<subseteq># mset (jobs (cls w)) + mset (pushes (a # as))"
    by (simp add: pushes_Cons [of a as] add.assoc)
  then show ?case using Cons.IH [of "step F w a"] step_jobs [of F w a] by simp
qed

lemma distinct_mset_subseteq:
  assumes "mset xs \<subseteq># mset ys" and "distinct ys"
  shows "distinct xs"
proof -
  have "count (mset xs) a \<le> 1" for a
  proof -
    have "count (mset xs) a \<le> count (mset ys) a"
      using assms(1) by (rule mset_subset_eq_count)
    also have "\<dots> \<le> 1" using assms(2) by (simp add: distinct_count_atmost_1)
    finally show ?thesis .
  qed
  then show ?thesis
    by (metis count_mset_0_iff distinct_count_atmost_1 le_antisym not_less_eq_eq
          le_zero_eq nat_le_linear One_nat_def)
qed

lemma slot_events_replicate: "slot_events (replicate k None) = []"
  by (induction k) auto

lemma configured_world:
  "ACTIVE_JOBS (cls (world0 (configure_queue Queue_class sp live n dg ui hs)))
     = replicate (nat n) None"
  "EVENT_QUEUE (cls (world0 (configure_queue Queue_class sp live n dg ui hs))) = []"
  "MAX_THREAD_COUNT (cls (world0 (configure_queue Queue_class sp live n dg ui hs))) = n"
  by (simp_all add: world0_def configure_queue_def Let_def Queue_class_def)

subsection \<open>The slot pool\<close>

text \<open>
  C1: in every state the dispatcher reaches from a configured start, whatever the
  interleaving of its coroutines, of enqueues, cancellations, stops and vanishing
  clients, the number of occupied slots is at most the configured concurrency limit, no
  job occupies two slots, and no job is in a slot and in the pending queue at once.
  The limit is a count (not negative) and every job is enqueued once, as a fresh
  \<open>Event\<close> object is.
\<close>

theorem C1_slot_pool_invariant:
  assumes limit: "0 \<le> n" and fresh: "distinct (pushes acts)"
  shows "int (length (occupied (run F (world0 (configure_queue Queue_class sp live n dg ui hs)) acts))) \<le> n
    \<and> distinct (occupied (run F (world0 (configure_queue Queue_class sp live n dg ui hs)) acts))
    \<and> set (occupied (run F (world0 (configure_queue Queue_class sp live n dg ui hs)) acts))
        \<inter> set (EVENT_QUEUE (cls (run F (world0 (configure_queue Queue_class sp live n dg ui hs)) acts))) = {}"
proof -
  define w0 :: "'a world" where "w0 = world0 (configure_queue Queue_class sp live n dg ui hs)"
  define w where "w = run F w0 acts"
  have slots0: "ACTIVE_JOBS (cls w0) = replicate (nat n) None"
    and queue0: "EVENT_QUEUE (cls w0) = []"
    unfolding w0_def by (rule configured_world)+
  have jobs0: "jobs (cls w0) = []"
    by (simp add: jobs_def slots0 queue0 slot_events_replicate)
  have len: "length (ACTIVE_JOBS (cls w)) = nat n"
    using run_jobs [of F w0 acts] slots0 by (simp add: w_def)
  have "mset (jobs (cls w)) \<subseteq># mset (pushes acts)"
    using run_jobs [of F w0 acts] jobs0 by (simp add: w_def)
  then have d: "distinct (jobs (cls w))"
    using fresh by (rule distinct_mset_subseteq)
  have "length (occupied w) \<le> nat n"
    using length_slot_events [of "ACTIVE_JOBS (cls w)"] len by (simp add: occupied_def)
  with limit have "int (length (occupied w)) \<le> n" by linarith
  moreover from d have "distinct (occupied w)"
    by (simp add: jobs_def occupied_def)
  moreover from d have "set (occupied w) \<inter> set (EVENT_QUEUE (cls w)) = {}"
    by (auto simp: jobs_def occupied_def)
  ultimately show ?thesis by (simp add: w_def w0_def)
qed

theorem C1_witness:
  "(0::int) \<le> 1 \<and> distinct (pushes ([Push 1, Push 2, Init, Run 1 NoInput] :: rat action list))
   \<and> occupied (run ieee_ops (world0 (configure_queue Queue_class ''http://x/'' True 1 30 5 100))
         [Push 1, Push 2, Init, Run 1 NoInput]) = [1]
   \<and> EVENT_QUEUE (cls (run ieee_ops
         (world0 (configure_queue Queue_class ''http://x/'' True 1 30 5 100))
         [Push 1, Push 2, Init, Run 1 NoInput])) = [2]
   \<and> int (length (occupied (run ieee_ops
         (world0 (configure_queue Queue_class ''http://x/'' True 1 30 5 100))
         [Push 1, Push 2, Init, Run 1 NoInput]))) \<le> 1"
  using C1_slot_pool_invariant [of 1 "[Push 1, Push 2, Init, Run 1 NoInput]" ieee_ops
          "''http://x/''" True 30 5 100]
  by (simp add: world0_def configure_queue_def Queue_class_def step_def push_def
        run_task_def start_processing_def occupied_def Let_def)

subsection \<open>Admission order\<close>

lemma launched_unchanged_tasks:
  "tasks (step F w a) = tasks w \<Longrightarrow> launched F w a = []"
  by (simp add: launched_def)

lemma start_processing_fifo:
  assumes "start_processing w = (t, ts, w')"
  shows "concat (map launched_event ts) @ EVENT_QUEUE (cls w') = EVENT_QUEUE (cls w)
         \<and> admission_loop t \<and> tasks w' = tasks w"
  using assms
  by (cases "EVENT_QUEUE (cls w)")
     (auto simp: start_processing_def Let_def split: if_splits sum.splits
        dest: py_index_Inl)

lemma step_fifo:
  assumes "i < length (tasks w)" and "admission_loop (tasks w ! i)"
    and "enqueue_or_admit i a"
  shows "launched F w a @ EVENT_QUEUE (cls (step F w a)) = EVENT_QUEUE (cls w) @ pushes [a]
         \<and> i < length (tasks (step F w a)) \<and> admission_loop (tasks (step F w a) ! i)"
proof (cases a)
  case (Push e)
  with assms show ?thesis by (simp add: step_def push_def launched_def)
next
  case Close
  with assms show ?thesis by (simp add: step_def close_def launched_def)
next
  case Resume
  with assms show ?thesis by (simp add: step_def resume_def launched_def)
next
  case (Run j inp)
  with assms have j: "j = i" by simp
  show ?thesis
  proof (cases "tasks w ! i")
    case StartProcessing
    obtain t ts w' where sp: "start_processing w = (t, ts, w')"
      by (cases "start_processing w") auto
    from start_processing_fifo [OF sp]
    have q: "concat (map launched_event ts) @ EVENT_QUEUE (cls w') = EVENT_QUEUE (cls w)"
      and t: "admission_loop t" and ts: "tasks w' = tasks w" by simp_all
    from sp StartProcessing assms(1) Run j
    have st: "step F w a = w' \<lparr> tasks := (tasks w')[i := t] @ ts \<rparr>"
      by (simp add: step_def run_task_def)
    with ts have "launched F w a = concat (map launched_event ts)"
      by (simp add: launched_def)
    with q st t ts assms(1) Run show ?thesis
      by (simp add: nth_append)
  next
    case Finished
    with assms(1,2) Run j show ?thesis
      by (simp add: step_def run_task_def launched_def list_update_same_conv)
  next
    case (Failed err)
    with assms(1,2) Run j show ?thesis
      by (simp add: step_def run_task_def launched_def list_update_same_conv)
  qed (use assms(2) in simp_all)
qed (use assms(3) in simp_all)

lemma run_fifo:
  assumes "i < length (tasks w)" and "admission_loop (tasks w ! i)"
    and "\<forall>a \<in> set acts. enqueue_or_admit i a"
  shows "admitted F w acts @ EVENT_QUEUE (cls (run F w acts)) = EVENT_QUEUE (cls w) @ pushes acts"
  using assms
proof (induction acts arbitrary: w)
  case Nil
  then show ?case by simp
next
  case (Cons a as)
  from Cons.prems have a: "enqueue_or_admit i a" by simp
  note s = step_fifo [OF Cons.prems(1,2) a, of F]
  from s Cons.prems(3)
  have "admitted F (step F w a) as @ EVENT_QUEUE (cls (run F (step F w a) as))
          = EVENT_QUEUE (cls (step F w a)) @ pushes as"
    by (intro Cons.IH) simp_all
  moreover have "pushes (a # as) = pushes [a] @ pushes as"
    by (cases a) auto
  ultimately show ?case using s by simp
qed

text \<open>
  C2: \<open>push\<close> appends the job at the tail of the pending queue, and in every run made
  of enqueues and iterations of the admission loop (no cancellation; stopping and
  resuming allowed) the jobs admitted so far, in the order of their admission, followed
  by the jobs still pending, are exactly the jobs in their order of arrival.
\<close>

theorem C2_fifo_admission:
  assumes "i < length (tasks w)" and "tasks w ! i = StartProcessing"
    and "\<forall>a \<in> set acts. enqueue_or_admit i a"
  shows "EVENT_QUEUE (cls (step F w (Push e))) = EVENT_QUEUE (cls w) @ [e]
    \<and> admitted F w acts @ EVENT_QUEUE (cls (run F w acts)) = EVENT_QUEUE (cls w) @ pushes acts"
proof -
  from assms(2) have "admission_loop (tasks w ! i)" by simp
  from run_fifo [OF assms(1) this assms(3)] show ?thesis
    by (simp add: step_def push_def)
qed

theorem C2_witness:
  "1 < length (tasks started) \<and> tasks started ! 1 = StartProcessing
   \<and> list_all (enqueue_or_admit 1) arrivals
   \<and> admitted ieee_ops started arrivals = [1, 2]
   \<and> EVENT_QUEUE (cls (run ieee_ops started arrivals)) = [3, 4]
   \<and> pushes arrivals = [1, 2, 3, 4]
   \<and> admitted ieee_ops started arrivals @ EVENT_QUEUE (cls (run ieee_ops started arrivals))
       = EVENT_QUEUE (cls started) @ pushes arrivals"
proof -
  have h1: "1 < length (tasks started)" by code_simp
  have h2: "tasks started ! 1 = StartProcessing" by code_simp
  have h3: "\<forall>a \<in> set arrivals. enqueue_or_admit 1 a" by code_simp
  have e1: "admitted ieee_ops started arrivals = [1, 2]" by code_simp
  have e2: "EVENT_QUEUE (cls (run ieee_ops started arrivals)) = [3, 4]" by code_simp
  have e3: "pushes arrivals = [1, 2, 3, 4]" by code_simp
  from C2_fifo_admission [OF h1 h2 h3, of ieee_ops 9] h1 h2 h3 e1 e2 e3
  show ?thesis by (simp add: list_all_iff)
qed

subsection \<open>Dead channels\<close>

lemma step_dead:
  assumes "\<not> alive w e"
  shows "\<not> alive (step F w a) e \<and> sent (step F w a) e = sent w e"
  using step_chan_evolves [of w F a] assms
  unfolding chan_evolves_def by blast

lemma run_dead:
  "\<not> alive w e \<Longrightarrow> \<not> alive (run F w acts) e \<and> sent (run F w acts) e = sent w e"
proof (induction acts arbitrary: w)
  case Nil
  then show ?case by simp
next
  case (Cons a as)
  from step_dead [OF Cons.prems, of F a]
  have "\<not> alive (step F w a) e" and s: "sent (step F w a) e = sent w e" by simp_all
  from Cons.IH [OF this(1)] s show ?case by simp
qed






subsection \<open>The end of a job\<close>


subsection \<open>Backend failure\<close>



subsection \<open>A failed receive\<close>

text \<open>
  C5 on the code: \<open>get_message\<close> turns a failed receive into \<open>None\<close> and
  \<open>gather_event_data\<close> stores it as the payload without looking at it. First run: job 3
  is pending, its client answers the prefetch's \<open>send_data\<close> and vanishes before the
  receive; the prefetch coroutine returns and job 3 is still in the pending queue.
  Second run: the receive fails on a live channel; the next prefetch of job 3 sends
  \<open>send_data\<close> again and waits for the payload again. Third run: the receive fails for
  the admitted job 1; the job keeps its slot and goes on to \<open>process_starts\<close> and the
  backend call.
\<close>

theorem C5_failed_receive_not_handled:
  "tasks prefetching ! 8 = GatherEventData G_Start 3
   \<and> tasks prefetching ! 9 = GatherEventData G_Start 3
   \<and> tasks (run ieee_ops prefetching [Run 8 NoInput, Run 8 NoInput, Die 3, Run 8 (Frame None)]) ! 8
       = Finished
   \<and> EVENT_QUEUE (cls (run ieee_ops prefetching
        [Run 8 NoInput, Run 8 NoInput, Die 3, Run 8 (Frame None)])) = [3]
   \<and> tasks (run ieee_ops prefetching
        [Run 8 NoInput, Run 8 NoInput, Run 8 (Frame None), Run 9 NoInput, Run 9 NoInput]) ! 9
       = GatherEventData G_Recv 3
   \<and> sent (run ieee_ops prefetching
        [Run 8 NoInput, Run 8 NoInput, Run 8 (Frame None), Run 9 NoInput, Run 9 NoInput]) 3
       = [send_data_msg, send_data_msg]
   \<and> EVENT_QUEUE (cls (run ieee_ops prefetching
        [Run 8 NoInput, Run 8 NoInput, Run 8 (Frame None), Run 9 NoInput, Run 9 NoInput])) = [3]
   \<and> tasks (run ieee_ops started
        [Push 1, Run 1 NoInput, Run 2 NoInput, Run 2 NoInput, Run 2 (Frame None), Run 2 NoInput]) ! 2
       = ProcessEvent P_Request 1
   \<and> sent (run ieee_ops started
        [Push 1, Run 1 NoInput, Run 2 NoInput, Run 2 NoInput, Run 2 (Frame None), Run 2 NoInput]) 1
       = [send_data_msg, process_starts_msg]
   \<and> ACTIVE_JOBS (cls (run ieee_ops started
        [Push 1, Run 1 NoInput, Run 2 NoInput, Run 2 NoInput, Run 2 (Frame None), Run 2 NoInput]))
       = [Some 1, None]"
  by code_simp

subsection \<open>The estimator\<close>

lemma update_estimation_config:
  "DURATION_HISTORY_SIZE (fst (update_estimation F c d)) = DURATION_HISTORY_SIZE c"
  "MAX_THREAD_COUNT (fst (update_estimation F c d)) = MAX_THREAD_COUNT c"
  by (simp_all add: update_estimation_def Let_def)

lemma drop_one: "drop (Suc 0) xs = tl xs"
  by (simp add: drop_Suc)

lemma evict_oldest:
  assumes "length h \<le> n"
  shows "(if n < length (h @ [d]) then tl (h @ [d]) else h @ [d])
           = drop (length (h @ [d]) - n) (h @ [d])"
proof (cases "length h = n")
  case True
  then have "length (h @ [d]) - n = Suc 0" by simp
  then have "drop (length (h @ [d]) - n) (h @ [d]) = tl (h @ [d])"
    by (simp only: drop_one)
  with True show ?thesis by simp
next
  case False
  with assms show ?thesis by simp
qed

lemma window_snoc:
  "drop (length (drop (length h - n) h @ [d]) - n) (drop (length h - n) h @ [d])
     = drop (length (h @ [d]) - n) (h @ [d])"
proof (cases "length h \<le> n")
  case True
  then show ?thesis by simp
next
  case False
  define k where "k = length h - n"
  from False have k: "k \<le> length h" "length (h @ [d]) - n = Suc k"
    by (simp_all add: k_def)
  from False have A: "length (drop k h @ [d]) - n = Suc 0" by (simp add: k_def)
  from k have B: "drop k h @ [d] = drop k (h @ [d])" by simp
  have C: "drop (Suc 0) (drop k (h @ [d])) = drop (Suc k) (h @ [d])"
    by (simp only: drop_drop) simp
  have "drop (length (drop k h @ [d]) - n) (drop k h @ [d]) = drop (Suc 0) (drop k h @ [d])"
    by (simp only: A)
  also have "\<dots> = drop (Suc 0) (drop k (h @ [d]))" by (simp only: B)
  also have "\<dots> = drop (Suc k) (h @ [d])" by (rule C)
  also have "\<dots> = drop (length (h @ [d]) - n) (h @ [d])" by (simp only: k(2))
  finally show ?thesis by (simp only: k_def)
qed

lemma window_filled:
  assumes "n \<le> k"
  shows "drop (length (h @ replicate k d) - n) (h @ replicate k d) = replicate n d"
proof -
  have "length (h @ replicate k d) - n = length h + (k - n)" using assms by simp
  then show ?thesis using assms by simp
qed

lemma update_estimation_history:
  assumes "int (length (DURATION_HISTORY c)) \<le> DURATION_HISTORY_SIZE c"
  shows "DURATION_HISTORY (fst (update_estimation F c d))
           = drop (length (DURATION_HISTORY c @ [d]) - nat (DURATION_HISTORY_SIZE c))
               (DURATION_HISTORY c @ [d])"
proof -
  from assms have len: "length (DURATION_HISTORY c) \<le> nat (DURATION_HISTORY_SIZE c)"
    by simp
  have "DURATION_HISTORY (fst (update_estimation F c d))
          = (if nat (DURATION_HISTORY_SIZE c) < length (DURATION_HISTORY c @ [d])
             then tl (DURATION_HISTORY c @ [d]) else DURATION_HISTORY c @ [d])"
    using assms by (auto simp: update_estimation_def Let_def)
  also note evict_oldest [OF len, of d]
  finally show ?thesis .
qed

lemma update_estimation_value:
  assumes "1 \<le> DURATION_HISTORY_SIZE c" and "MAX_THREAD_COUNT c \<noteq> 0"
  shows "snd (update_estimation F c d) = None
    \<and> ESTIMATION (fst (update_estimation F c d))
        = PFloat (fround F
            (fadd F
               (fdiv F
                  (fdiv F (fsum F (DURATION_HISTORY (fst (update_estimation F c d))))
                     (fof_int F (int (length (DURATION_HISTORY (fst (update_estimation F c d)))))))
                  (fof_int F (MAX_THREAD_COUNT c)))
               d) 2)"
proof -
  have "tl (DURATION_HISTORY c @ [d]) \<noteq> []"
    if "int (length (DURATION_HISTORY c @ [d])) > DURATION_HISTORY_SIZE c"
    using that assms(1) by (cases "DURATION_HISTORY c") auto
  with assms show ?thesis
    by (auto simp: update_estimation_def Let_def)
qed

lemma record_durations_config:
  "DURATION_HISTORY_SIZE (record_durations F c ds) = DURATION_HISTORY_SIZE c
   \<and> MAX_THREAD_COUNT (record_durations F c ds) = MAX_THREAD_COUNT c"
  by (induction ds arbitrary: c) (simp_all add: update_estimation_config)

lemma record_durations_snoc:
  "record_durations F c (ds @ [d]) = fst (update_estimation F (record_durations F c ds) d)"
  by (induction ds arbitrary: c) simp_all

lemma record_durations_history:
  assumes "0 \<le> DURATION_HISTORY_SIZE c"
    and "int (length (DURATION_HISTORY c)) \<le> DURATION_HISTORY_SIZE c"
  shows "DURATION_HISTORY (record_durations F c ds)
           = drop (length (DURATION_HISTORY c @ ds) - nat (DURATION_HISTORY_SIZE c))
               (DURATION_HISTORY c @ ds)"
  using assms
proof (induction ds rule: rev_induct)
  case Nil
  then show ?case by simp
next
  case (snoc d ds)
  let ?c = "record_durations F c ds"
  let ?n = "nat (DURATION_HISTORY_SIZE c)"
  let ?h = "DURATION_HISTORY c @ ds"
  have h: "DURATION_HISTORY ?c = drop (length ?h - ?n) ?h"
    using snoc by simp
  have size: "DURATION_HISTORY_SIZE ?c = DURATION_HISTORY_SIZE c"
    by (simp add: record_durations_config)
  have "int (length (DURATION_HISTORY ?c)) \<le> DURATION_HISTORY_SIZE ?c"
    using h size snoc.prems(1) by simp
  from update_estimation_history [OF this, of F d]
  have "DURATION_HISTORY (record_durations F c (ds @ [d]))
          = drop (length (drop (length ?h - ?n) ?h @ [d]) - ?n) (drop (length ?h - ?n) ?h @ [d])"
    by (simp add: record_durations_snoc h size)
  also have "\<dots> = drop (length (?h @ [d]) - ?n) (?h @ [d])"
    by (rule window_snoc)
  finally show ?case by simp
qed

lemma record_durations_filled:
  assumes window: "1 \<le> DURATION_HISTORY_SIZE c" and limit: "MAX_THREAD_COUNT c \<noteq> 0"
    and start: "int (length (DURATION_HISTORY c)) \<le> DURATION_HISTORY_SIZE c"
    and k: "nat (DURATION_HISTORY_SIZE c) \<le> Suc k"
  shows "DURATION_HISTORY (record_durations F c (replicate (Suc k) d))
           = replicate (nat (DURATION_HISTORY_SIZE c)) d
       \<and> ESTIMATION (record_durations F c (replicate (Suc k) d))
           = PFloat (fround F
               (fadd F
                  (fdiv F
                     (fdiv F (fsum F (replicate (nat (DURATION_HISTORY_SIZE c)) d))
                        (fof_int F (DURATION_HISTORY_SIZE c)))
                     (fof_int F (MAX_THREAD_COUNT c)))
                  d) 2)"
proof -
  let ?n = "nat (DURATION_HISTORY_SIZE c)"
  let ?c = "record_durations F c (replicate k d)"
  have cfg: "DURATION_HISTORY_SIZE ?c = DURATION_HISTORY_SIZE c"
    "MAX_THREAD_COUNT ?c = MAX_THREAD_COUNT c"
    by (simp_all add: record_durations_config)
  have last: "record_durations F c (replicate (Suc k) d) = fst (update_estimation F ?c d)"
    using record_durations_snoc [of F c "replicate k d" d]
    by (simp add: replicate_append_same)
  have "DURATION_HISTORY (record_durations F c (replicate (Suc k) d))
          = drop (length (DURATION_HISTORY c @ replicate (Suc k) d) - ?n)
              (DURATION_HISTORY c @ replicate (Suc k) d)"
    using window start by (intro record_durations_history) simp_all
  also have "\<dots> = replicate ?n d"
    using k by (rule window_filled)
  finally have h: "DURATION_HISTORY (record_durations F c (replicate (Suc k) d))
          = replicate ?n d" .
  from update_estimation_value [of ?c F d] window limit cfg
  have "ESTIMATION (fst (update_estimation F ?c d))
      = PFloat (fround F
          (fadd F
             (fdiv F
                (fdiv F (fsum F (DURATION_HISTORY (fst (update_estimation F ?c d))))
                   (fof_int F (int (length (DURATION_HISTORY (fst (update_estimation F ?c d)))))))
                (fof_int F (MAX_THREAD_COUNT c)))
             d) 2)"
    by simp
  with h last window show ?thesis by simp
qed

text \<open>Evaluating binary64 arithmetic on numerals.\<close>

lemma floor_numeral_div:
  "\<lfloor>numeral a / numeral b :: rat\<rfloor> = numeral a div numeral b"
  using floor_divide_of_int_eq [of "numeral a" "numeral b", where ?'a = rat] by simp

lemmas ev = binary64_def ilog2.simps round_half_even_def scale2_def Let_def ieee_ops_def fsum_def
  floor_numeral_div

lemma binary64_values:
  "binary64 (7 / 10) = 3152519739159347 / 4503599627370496"
  "binary64 (87 / 100) = 7836263351624663 / 9007199254740992"
  "binary64 (22 / 25) = 7926335344172073 / 9007199254740992"
  by (simp_all add: ev)

lemma ieee_sum:
  "fsum ieee_ops (replicate 3 (3152519739159347 / 4503599627370496))
     = 1182194902184755 / 562949953421312"
  by (simp add: ev numeral_3_eq_3)

lemma ieee_formula:
  "fround ieee_ops
     (fadd ieee_ops
        (fdiv ieee_ops
           (fdiv ieee_ops (1182194902184755 / 562949953421312) (fof_int ieee_ops 3))
           (fof_int ieee_ops 4))
        (3152519739159347 / 4503599627370496)) 2
     = 7836263351624663 / 9007199254740992"
  by (simp add: ev)

lemma ieee_direct:
  "fround ieee_ops
     (fadd ieee_ops
        (fdiv ieee_ops (3152519739159347 / 4503599627370496) (fof_int ieee_ops 4))
        (3152519739159347 / 4503599627370496)) 2
     = 7926335344172073 / 9007199254740992"
  by (simp add: ev)

lemma estimator_config:
  "DURATION_HISTORY_SIZE estimator = 3" "MAX_THREAD_COUNT estimator = 4"
  "DURATION_HISTORY estimator = []"
  by (simp_all add: estimator_def configure_queue_def Queue_class_def)


lemma estimator_filled:
  "DURATION_HISTORY (record_durations ieee_ops estimator (replicate 3 (binary64 (7 / 10))))
     = replicate 3 (binary64 (7 / 10))
   \<and> ESTIMATION (record_durations ieee_ops estimator (replicate 3 (binary64 (7 / 10))))
     = PFloat (binary64 (87 / 100))"
proof -
  have "1 \<le> DURATION_HISTORY_SIZE estimator" "MAX_THREAD_COUNT estimator \<noteq> 0"
    "int (length (DURATION_HISTORY estimator)) \<le> DURATION_HISTORY_SIZE estimator"
    "nat (DURATION_HISTORY_SIZE estimator) \<le> Suc 2"
    by (simp_all add: estimator_config)
  from record_durations_filled [OF this, of ieee_ops "binary64 (7 / 10)"]
  show ?thesis
    by (simp add: estimator_config binary64_values ieee_sum ieee_formula numeral_3_eq_3 [symmetric])
qed

text \<open>
  C3, as the code has it. With a window of at least one duration and a concurrency
  limit other than 0, \<open>update_estimation\<close> raises nothing, retains the last
  \<open>DURATION_HISTORY_SIZE\<close> durations, the new one included, and stores
  \<open>round(sum(history) / len(history) / MAX_THREAD_COUNT + duration, 2)\<close>, each operation
  being the float one. Once the window holds only copies of one duration \<open>d\<close>, the
  stored value is this formula on the \<open>n\<close> copies: the float sum of the copies divided
  by \<open>n\<close>, which need not be \<open>d\<close>.
\<close>

theorem C3_update_estimation:
  assumes window: "1 \<le> DURATION_HISTORY_SIZE c" and limit: "MAX_THREAD_COUNT c \<noteq> 0"
    and start: "int (length (DURATION_HISTORY c)) \<le> DURATION_HISTORY_SIZE c"
  shows "snd (update_estimation F c d) = None
    \<and> DURATION_HISTORY (fst (update_estimation F c d))
        = drop (length (DURATION_HISTORY c @ [d]) - nat (DURATION_HISTORY_SIZE c))
            (DURATION_HISTORY c @ [d])
    \<and> ESTIMATION (fst (update_estimation F c d))
        = PFloat (fround F
            (fadd F
               (fdiv F
                  (fdiv F (fsum F (DURATION_HISTORY (fst (update_estimation F c d))))
                     (fof_int F (int (length (DURATION_HISTORY (fst (update_estimation F c d)))))))
                  (fof_int F (MAX_THREAD_COUNT c)))
               d) 2)
    \<and> (nat (DURATION_HISTORY_SIZE c) \<le> Suc k \<longrightarrow>
         DURATION_HISTORY (record_durations F c (replicate (Suc k) d))
           = replicate (nat (DURATION_HISTORY_SIZE c)) d
         \<and> ESTIMATION (record_durations F c (replicate (Suc k) d))
           = PFloat (fround F
               (fadd F
                  (fdiv F
                     (fdiv F (fsum F (replicate (nat (DURATION_HISTORY_SIZE c)) d))
                        (fof_int F (DURATION_HISTORY_SIZE c)))
                     (fof_int F (MAX_THREAD_COUNT c)))
                  d) 2))"
  using update_estimation_value [OF window limit, of F d]
    update_estimation_history [OF start, of F d]
    record_durations_filled [OF window limit start, of k F d]
  by blast


theorem C3_witness:
  "1 \<le> DURATION_HISTORY_SIZE estimator \<and> MAX_THREAD_COUNT estimator \<noteq> 0
   \<and> int (length (DURATION_HISTORY estimator)) \<le> DURATION_HISTORY_SIZE estimator
   \<and> nat (DURATION_HISTORY_SIZE estimator) \<le> Suc 2
   \<and> snd (update_estimation ieee_ops estimator (binary64 (7 / 10))) = None
   \<and> DURATION_HISTORY (fst (update_estimation ieee_ops estimator (binary64 (7 / 10))))
       = [binary64 (7 / 10)]
   \<and> DURATION_HISTORY (record_durations ieee_ops estimator (replicate (Suc 2) (binary64 (7 / 10))))
       = replicate 3 (binary64 (7 / 10))
   \<and> ESTIMATION (record_durations ieee_ops estimator (replicate (Suc 2) (binary64 (7 / 10))))
       = PFloat (fround ieee_ops
           (fadd ieee_ops
              (fdiv ieee_ops
                 (fdiv ieee_ops (fsum ieee_ops (replicate 3 (binary64 (7 / 10))))
                    (fof_int ieee_ops 3))
                 (fof_int ieee_ops 4))
              (binary64 (7 / 10))) 2)"
proof -
  have h: "1 \<le> DURATION_HISTORY_SIZE estimator" "MAX_THREAD_COUNT estimator \<noteq> 0"
    "int (length (DURATION_HISTORY estimator)) \<le> DURATION_HISTORY_SIZE estimator"
    by (simp_all add: estimator_config)
  have k: "nat (DURATION_HISTORY_SIZE estimator) \<le> Suc 2"
    by (simp add: estimator_config)
  from C3_update_estimation [OF h, of ieee_ops "binary64 (7 / 10)" 2] h k
  show ?thesis by (simp add: estimator_config)
qed

text \<open>
  The claim fails on floats: with a window of 3, a limit of 4 and three durations
  \<open>0.7\<close>, the sum is \<open>2.0999999999999996\<close>, the average \<open>0.6999999999999998\<close> and
  the stored ETA \<open>0.87\<close>, where \<open>round(0.7 / 4 + 0.7, 2)\<close> is \<open>0.88\<close>. And with a
  window of 0 the update raises \<open>ZeroDivisionError\<close> and the ETA stays at its default.
\<close>

theorem C3_counterexample:
  "DURATION_HISTORY (record_durations ieee_ops estimator (replicate 3 (binary64 (7 / 10))))
     = replicate 3 (binary64 (7 / 10))
   \<and> ESTIMATION (record_durations ieee_ops estimator (replicate 3 (binary64 (7 / 10))))
     = PFloat (binary64 (87 / 100))
   \<and> fround ieee_ops
       (fadd ieee_ops (fdiv ieee_ops (binary64 (7 / 10)) (fof_int ieee_ops 4)) (binary64 (7 / 10))) 2
     = binary64 (88 / 100)
   \<and> binary64 (87 / 100) \<noteq> binary64 (88 / 100)
   \<and> update_estimation ieee_ops no_window (binary64 (7 / 10))
     = (no_window \<lparr> DURATION_HISTORY := [] \<rparr>, Some ZeroDivisionError)
   \<and> ESTIMATION no_window = PInt 1"
  using estimator_filled
  by (simp add: binary64_values ieee_direct update_estimation_def no_window_def
        configure_queue_def Queue_class_def)

subsection \<open>Concrete states of a job\<close>






subsection \<open>A failed fetch of an admitted job\<close>

text \<open>
  C4 on the code: \<open>process_event\<close> never looks at how the fetch of the payload ended.
  When the receive fails, or yields nothing, for an admitted job whose channel still
  takes sends, the coroutine stores \<open>None\<close> as the payload, delivers
  \<open>process_starts\<close>, keeps the slot and goes on to the backend call: the job is
  neither released nor abandoned, and a further message is sent.
\<close>

theorem C4_failed_fetch_continues:
  assumes "i < length (tasks w)" and "tasks w ! i = ProcessEvent (P_Gather G_Recv) e"
    and "alive w e" and "\<not> closed w e"
    and "fr = None \<or> fr = Some JNull"
  shows "sent (run F w [Run i (Frame fr), Run i inp]) e = sent w e @ [process_starts_msg]
    \<and> tasks (run F w [Run i (Frame fr), Run i inp]) ! i = ProcessEvent P_Request e
    \<and> cls (run F w [Run i (Frame fr), Run i inp]) = cls w
    \<and> data (run F w [Run i (Frame fr), Run i inp]) e = JNull"
proof -
  have w1: "step F w (Run i (Frame fr))
              = w \<lparr> data := (data w)(e := JNull),
                    tasks := (tasks w)[i := ProcessEvent P_Starts e] \<rparr>"
    using assms
    by (auto simp: step_def run_task_def process_event_def gather_event_data_def
          get_message_def)
  then show ?thesis
    using assms(1,3,4)
    by (simp add: step_def run_task_def process_event_def send_message_def)
qed

theorem C4_witness:
  "2 < length (tasks receiving) \<and> tasks receiving ! 2 = ProcessEvent (P_Gather G_Recv) 1
   \<and> alive receiving 1 \<and> \<not> closed receiving 1
   \<and> ACTIVE_JOBS (cls receiving) = [Some 1, None]
   \<and> sent (run ieee_ops receiving [Run 2 (Frame None), Run 2 NoInput]) 1
       = [send_data_msg, process_starts_msg]
   \<and> tasks (run ieee_ops receiving [Run 2 (Frame None), Run 2 NoInput]) ! 2
       = ProcessEvent P_Request 1
   \<and> ACTIVE_JOBS (cls (run ieee_ops receiving [Run 2 (Frame None), Run 2 NoInput]))
       = [Some 1, None]
   \<and> data (run ieee_ops receiving [Run 2 (Frame None), Run 2 NoInput]) 1 = JNull"
proof -
  have h1: "2 < length (tasks receiving)" by code_simp
  have h2: "tasks receiving ! 2 = ProcessEvent (P_Gather G_Recv) 1" by code_simp
  have h3: "alive receiving 1" by code_simp
  have h4: "\<not> closed receiving 1" by code_simp
  have e1: "ACTIVE_JOBS (cls receiving) = [Some 1, None]" by code_simp
  have e2: "sent receiving 1 = [send_data_msg]" by code_simp
  from C4_failed_fetch_continues [OF h1 h2 h3 h4, of None ieee_ops NoInput]
    h1 h2 h3 h4 e1 e2
  show ?thesis by simp
qed

subsection \<open>The backend call\<close>





subsection \<open>Estimation messages\<close>


lemma sends_upd [simp]:
  "sends P w (w1 \<lparr> cls := c \<rparr>) = sends P w w1"
  "sends P w (w1 \<lparr> data := d \<rparr>) = sends P w w1"
  "sends P w (w1 \<lparr> closed := x \<rparr>) = sends P w w1"
  by (simp_all add: sends_def)


lemma job_msg_simps [simp]:
  "job_msg send_data_msg" "job_msg process_starts_msg" "job_msg (process_completed_msg out)"
  by (auto simp: job_msg_def)




























end
